theory Spec2Isabelle
  imports Main "HOL-Library.Multiset"
begin

section \<open>Interval primitives\<close>

text \<open>
  A time point is Go's \<^verbatim>\<open>time.Time\<close>, an instant counted in nanoseconds; the program
  only compares instants (\<^verbatim>\<open>Before\<close>), so an instant is an integer.
  \<^verbatim>\<open>Block\<close>, \<^verbatim>\<open>Span\<close> and \<^verbatim>\<open>Slot\<close> are three structs that each hold a start
  and an end and each satisfy the interface \<^verbatim>\<open>Period\<close> (accessors \<^verbatim>\<open>Start()\<close>,
  \<^verbatim>\<open>End()\<close>); they are one record here, under three names.
\<close>

type_synonym time = int

record Period =
  Start :: time
  End :: time

type_synonym Block = Period

type_synonym Span = Period

type_synonym Slot = Period

text \<open>
  A \<^verbatim>\<open>*Span\<close> is a pointer to a struct that its methods mutate. The store holds the
  spans: an address is an index of the store, and \<^verbatim>\<open>nil\<close> is \<open>None\<close> of
  \<open>addr option\<close>.
\<close>

type_synonym addr = nat

type_synonym heap = "Span list"

subsection \<open>The four relations of a block to a period\<close>

text \<open>
  Modelled from the spec: the methods \<^verbatim>\<open>Contains\<close>, \<^verbatim>\<open>IsContainedIn\<close>,
  \<^verbatim>\<open>OverlapAtStart\<close> and \<^verbatim>\<open>OverlapAtEnd\<close> of \<^verbatim>\<open>Block\<close> are not among
  the source files (only their tests, \<^verbatim>\<open>blocks_test.go\<close>, are). Each is the condition of
  the spec's table in section 4.1, with the block as receiver and the period \<open>p\<close> as
  argument. Every row of the four test tables agrees with these conditions.
\<close>

definition Contains :: "Block \<Rightarrow> Period \<Rightarrow> bool" where
  "Contains block p \<longleftrightarrow> Start p \<ge> Start block \<and> End p \<le> End block"

definition IsContainedIn :: "Block \<Rightarrow> Period \<Rightarrow> bool" where
  "IsContainedIn block p \<longleftrightarrow> Start p \<le> Start block \<and> End block \<le> End p"

definition OverlapAtStart :: "Block \<Rightarrow> Period \<Rightarrow> bool" where
  "OverlapAtStart block p \<longleftrightarrow>
     Start block \<le> Start p \<and> Start p < End block \<and> End block \<le> End p"

definition OverlapAtEnd :: "Block \<Rightarrow> Period \<Rightarrow> bool" where
  "OverlapAtEnd block p \<longleftrightarrow>
     Start p \<le> Start block \<and> Start block < End p \<and> End p \<le> End block"

subsection \<open>The methods of the working span\<close>

text \<open>
  Modelled from the spec: the methods \<^verbatim>\<open>Remain\<close>, \<^verbatim>\<open>Shorten\<close>, \<^verbatim>\<open>Drop\<close>,
  \<^verbatim>\<open>ToSlot\<close> and \<^verbatim>\<open>Clone\<close> of \<^verbatim>\<open>Span\<close> and the helper
  \<^verbatim>\<open>createSlotFrom\<close> are not among the source files. From section 3 of the spec:
  \<^verbatim>\<open>Remain\<close> is true while \<open>Start < End\<close>; \<^verbatim>\<open>Shorten(block)\<close> advances \<open>Start\<close>
  to the block's \<open>End\<close>; \<^verbatim>\<open>Drop\<close> forces \<^verbatim>\<open>Remain\<close> to false (the spec does not say
  which field it moves: here \<open>Start\<close> moves to \<open>End\<close>, and the program reads nothing
  but \<^verbatim>\<open>Remain\<close> of a dropped span); \<^verbatim>\<open>ToSlot\<close> is the remaining window as a slot;
  \<^verbatim>\<open>Clone\<close> makes the working copy, a new span of the store with the same two fields.
  From section 4.2: the slot \<^verbatim>\<open>createSlotFrom(target, block)\<close> is the gap between the
  target's \<open>Start\<close> and the block's \<open>Start\<close>.
  The receiver is a pointer: each method takes the store and the address.
\<close>

definition Remain :: "heap \<Rightarrow> addr \<Rightarrow> bool" where
  "Remain h a \<longleftrightarrow> Start (h ! a) < End (h ! a)"

definition Shorten :: "heap \<Rightarrow> addr \<Rightarrow> Block \<Rightarrow> heap" where
  "Shorten h a block = h[a := (h ! a)\<lparr>Start := End block\<rparr>]"

definition Drop :: "heap \<Rightarrow> addr \<Rightarrow> heap" where
  "Drop h a = h[a := (h ! a)\<lparr>Start := End (h ! a)\<rparr>]"

definition ToSlot :: "heap \<Rightarrow> addr \<Rightarrow> Slot" where
  "ToSlot h a = \<lparr>Start = Start (h ! a), End = End (h ! a)\<rparr>"

definition Clone :: "heap \<Rightarrow> addr \<Rightarrow> heap \<times> addr" where
  "Clone h a = (h @ [h ! a], length h)"

definition createSlotFrom :: "heap \<Rightarrow> addr \<Rightarrow> Block \<Rightarrow> Slot" where
  "createSlotFrom h a block = \<lparr>Start = Start (h ! a), End = Start block\<rparr>"

section \<open>Options\<close>

text \<open>
  \<^verbatim>\<open>Options[Out]\<close> holds one function value that may be \<^verbatim>\<open>nil\<close>; an
  \<^verbatim>\<open>Option[Out]\<close> is a function that updates the options it is given.
\<close>

record 'o Options =
  FilterFunc :: "('o \<Rightarrow> bool) option"

type_synonym 'o OptionFn = "'o Options \<Rightarrow> 'o Options"

definition IsSetFilter :: "'o Options \<Rightarrow> bool" where
  "IsSetFilter options \<longleftrightarrow> FilterFunc options \<noteq> None"

definition WithFilter :: "('o \<Rightarrow> bool) option \<Rightarrow> 'o OptionFn" where
  "WithFilter filter_fn = (\<lambda>options. options\<lparr>FilterFunc := filter_fn\<rparr>)"

section \<open>The sweep\<close>

text \<open>
  The state of one call: the store (the working span lives in it), the result buffer
  \<^verbatim>\<open>slots\<close> and its write index \<^verbatim>\<open>j\<close>, and two traces of what the call has done
  so far: the arguments the caller's filter was invoked on, in order, and the number of
  iterations the \<^verbatim>\<open>range\<close> loop has started (one block is examined in each).
\<close>

datatype error = IndexOutOfRange

record 'o sweep =
  st_heap :: heap
  st_slots :: "'o list"
  st_j :: nat
  st_calls :: "'o list"
  st_examined :: nat

text \<open>
  What the caller can observe after a call that returned: the returned slice, the
  caller's input slice (sorted in place), the store, and the two traces.
\<close>

record ('i, 'o) outcome =
  result :: "'o list"
  inputs_after :: "'i list"
  heap_after :: heap
  filter_calls :: "'o list"
  examined :: nat

text \<open>
  \<^verbatim>\<open>options.IsSetFilter() && options.FilterFunc(slot)\<close>: the filter is invoked only
  when it is set.
\<close>

definition filter_excludes :: "'o Options \<Rightarrow> 'o \<Rightarrow> 'o sweep \<Rightarrow> bool \<times> 'o sweep" where
  "filter_excludes options slot s =
     (if IsSetFilter options
      then (the (FilterFunc options) slot, s\<lparr>st_calls := st_calls s @ [slot]\<rparr>)
      else (False, s))"

text \<open>
  \<^verbatim>\<open>slots[j] = slot; j++\<close>: Go panics when the index is not below the length of the
  slice.
\<close>

definition assign_slot :: "'o \<Rightarrow> 'o sweep \<Rightarrow> error + 'o sweep" where
  "assign_slot slot s =
     (if st_j s < length (st_slots s)
      then Inr (s\<lparr>st_slots := (st_slots s)[st_j s := slot], st_j := st_j s + 1\<rparr>)
      else Inl IndexOutOfRange)"

text \<open>
  \<^verbatim>\<open>return slots[:j]\<close>: Go panics when \<open>j\<close> exceeds the capacity of the slice, which
  is its length here.
\<close>

definition return_slots :: "'i list \<Rightarrow> 'o sweep \<Rightarrow> error + ('i, 'o) outcome" where
  "return_slots inputs s =
     (if st_j s \<le> length (st_slots s)
      then Inr \<lparr>result = take (st_j s) (st_slots s), inputs_after = inputs,
                heap_after = st_heap s, filter_calls = st_calls s,
                examined = st_examined s\<rparr>
      else Inl IndexOutOfRange)"

subsection \<open>FindWithMapper\<close>

text \<open>
  The \<^verbatim>\<open>range\<close> loop of \<^verbatim>\<open>FindWithMapper\<close> (lines 61 to 95): \<^verbatim>\<open>break\<close> returns the
  state, \<^verbatim>\<open>continue\<close> goes on with the rest of the slice. A \<^verbatim>\<open>*Slot\<close> handed to
  \<^verbatim>\<open>mapout\<close> is \<open>Some\<close> of the slot.
\<close>

fun FindWithMapper_loop ::
  "('i \<Rightarrow> Block) \<Rightarrow> (Slot option \<Rightarrow> 'o) \<Rightarrow> 'o Options \<Rightarrow> addr \<Rightarrow> 'i list \<Rightarrow> 'o sweep
     \<Rightarrow> error + 'o sweep" where
  "FindWithMapper_loop mapin mapout options target [] s = Inr s"
| "FindWithMapper_loop mapin mapout options target (input # rest) s0 =
     (let s = s0\<lparr>st_examined := st_examined s0 + 1\<rparr>;
          block = mapin input
      in if Contains block (st_heap s ! target)
         then Inr (s\<lparr>st_heap := Drop (st_heap s) target\<rparr>)
         else if OverlapAtStart block (st_heap s ! target)
         then FindWithMapper_loop mapin mapout options target rest
                (s\<lparr>st_heap := Shorten (st_heap s) target block\<rparr>)
         else if IsContainedIn block (st_heap s ! target)
         then (let slot = mapout (Some (createSlotFrom (st_heap s) target block));
                   s1 = s\<lparr>st_heap := Shorten (st_heap s) target block\<rparr>
               in case filter_excludes options slot s1 of
                    (excluded, s2) \<Rightarrow>
                      if excluded
                      then FindWithMapper_loop mapin mapout options target rest s2
                      else (case assign_slot slot s2 of
                              Inl e \<Rightarrow> Inl e
                            | Inr s3 \<Rightarrow>
                                FindWithMapper_loop mapin mapout options target rest s3))
         else if OverlapAtEnd block (st_heap s ! target)
         then (let slot = mapout (Some (createSlotFrom (st_heap s) target block));
                   s1 = s\<lparr>st_heap := Drop (st_heap s) target\<rparr>
               in case filter_excludes options slot s1 of
                    (excluded, s2) \<Rightarrow>
                      if excluded then Inr s2 else assign_slot slot s2)
         else FindWithMapper_loop mapin mapout options target rest s)"

text \<open>After the loop (lines 97 to 106): the trailing emission.\<close>

definition FindWithMapper_tail ::
  "(Slot option \<Rightarrow> 'o) \<Rightarrow> 'o Options \<Rightarrow> addr \<Rightarrow> 'i list \<Rightarrow> 'o sweep
     \<Rightarrow> error + ('i, 'o) outcome" where
  "FindWithMapper_tail mapout options target inputs s =
     (if \<not> Remain (st_heap s) target then return_slots inputs s
      else let slot = mapout (Some (ToSlot (st_heap s) target))
           in case filter_excludes options slot s of
                (excluded, s2) \<Rightarrow>
                  if excluded then return_slots inputs s2
                  else (case assign_slot slot s2 of
                          Inl e \<Rightarrow> Inl e
                        | Inr s3 \<Rightarrow> return_slots inputs s3))"

text \<open>
  \<^verbatim>\<open>FindWithMapper\<close> (lines 38 to 107). Three parameters stand for what Go supplies:
  \<open>sort_Slice\<close> is \<^verbatim>\<open>sort.Slice\<close> of the standard library with the comparison of line
  56 (it sorts in place and is not stable, so the order of inputs with equal starts is
  left open: the theorems assume only that its result is a permutation sorted by
  start); \<open>zero\<close> is the zero value of \<^verbatim>\<open>Out\<close>, with which \<^verbatim>\<open>make\<close> fills the
  buffer; \<open>h\<close> is the store when the call starts. The inputs are non-nil and \<^verbatim>\<open>mapin\<close>
  returns a non-nil block.
\<close>

definition FindWithMapper ::
  "('i list \<Rightarrow> 'i list) \<Rightarrow> 'o \<Rightarrow> heap \<Rightarrow> 'i list \<Rightarrow> addr option \<Rightarrow> ('i \<Rightarrow> Block)
     \<Rightarrow> (Slot option \<Rightarrow> 'o) \<Rightarrow> 'o OptionFn list \<Rightarrow> error + ('i, 'o) outcome" where
  "FindWithMapper sort_Slice zero h inputs span mapin mapout opts =
     (let options = fold (\<lambda>opt options. opt options) opts \<lparr>FilterFunc = None\<rparr>;
          nothing = \<lparr>result = [], inputs_after = inputs, heap_after = h,
                     filter_calls = [], examined = 0\<rparr>
      in case span of
           None \<Rightarrow> Inr nothing
         | Some p \<Rightarrow>
             if \<not> Remain h p then Inr nothing
             else (case Clone h p of
                     (h1, target) \<Rightarrow>
                       if length inputs = 0
                       then Inr \<lparr>result = [mapout (Some (ToSlot h1 target))],
                                 inputs_after = inputs, heap_after = h1,
                                 filter_calls = [], examined = 0\<rparr>
                       else (let inputs' = sort_Slice inputs;
                                 s0 = \<lparr>st_heap = h1,
                                       st_slots = replicate (length inputs' + 1) zero,
                                       st_j = 0, st_calls = [], st_examined = 0\<rparr>
                             in case FindWithMapper_loop mapin mapout options target
                                       inputs' s0 of
                                  Inl e \<Rightarrow> Inl e
                                | Inr s1 \<Rightarrow>
                                    FindWithMapper_tail mapout options target inputs' s1)))"

subsection \<open>Find\<close>

text \<open>
  The loop of \<^verbatim>\<open>Find\<close> (lines 134 to 167). The buffer holds \<^verbatim>\<open>*Slot\<close>: a cell is
  \<open>None\<close> (\<^verbatim>\<open>nil\<close>) until a slot is written to it.
\<close>

fun Find_loop ::
  "Slot option Options \<Rightarrow> addr \<Rightarrow> Block list \<Rightarrow> Slot option sweep
     \<Rightarrow> error + Slot option sweep" where
  "Find_loop options target [] s = Inr s"
| "Find_loop options target (block # rest) s0 =
     (let s = s0\<lparr>st_examined := st_examined s0 + 1\<rparr>
      in if Contains block (st_heap s ! target)
         then Inr (s\<lparr>st_heap := Drop (st_heap s) target\<rparr>)
         else if OverlapAtStart block (st_heap s ! target)
         then Find_loop options target rest (s\<lparr>st_heap := Shorten (st_heap s) target block\<rparr>)
         else if IsContainedIn block (st_heap s ! target)
         then (let slot = Some (createSlotFrom (st_heap s) target block);
                   s1 = s\<lparr>st_heap := Shorten (st_heap s) target block\<rparr>
               in case filter_excludes options slot s1 of
                    (excluded, s2) \<Rightarrow>
                      if excluded then Find_loop options target rest s2
                      else (case assign_slot slot s2 of
                              Inl e \<Rightarrow> Inl e
                            | Inr s3 \<Rightarrow> Find_loop options target rest s3))
         else if OverlapAtEnd block (st_heap s ! target)
         then (let slot = Some (createSlotFrom (st_heap s) target block);
                   s1 = s\<lparr>st_heap := Drop (st_heap s) target\<rparr>
               in case filter_excludes options slot s1 of
                    (excluded, s2) \<Rightarrow>
                      if excluded then Inr s2 else assign_slot slot s2)
         else Find_loop options target rest s)"

text \<open>After the loop (lines 169 to 178).\<close>

definition Find_tail ::
  "Slot option Options \<Rightarrow> addr \<Rightarrow> Block list \<Rightarrow> Slot option sweep
     \<Rightarrow> error + (Block, Slot option) outcome" where
  "Find_tail options target blocks s =
     (if \<not> Remain (st_heap s) target then return_slots blocks s
      else let slot = Some (ToSlot (st_heap s) target)
           in case filter_excludes options slot s of
                (excluded, s2) \<Rightarrow>
                  if excluded then return_slots blocks s2
                  else (case assign_slot slot s2 of
                          Inl e \<Rightarrow> Inl e
                        | Inr s3 \<Rightarrow> return_slots blocks s3))"

text \<open>
  \<^verbatim>\<open>Find\<close> (lines 111 to 179); \<open>sort_Slice\<close> and \<open>h\<close> as for \<^verbatim>\<open>FindWithMapper\<close>. The
  blocks are non-nil pointers to immutable blocks, hence values.
\<close>

definition Find ::
  "(Block list \<Rightarrow> Block list) \<Rightarrow> heap \<Rightarrow> Block list \<Rightarrow> addr option
     \<Rightarrow> Slot option OptionFn list \<Rightarrow> error + (Block, Slot option) outcome" where
  "Find sort_Slice h blocks span opts =
     (let options = fold (\<lambda>opt options. opt options) opts \<lparr>FilterFunc = None\<rparr>;
          nothing = \<lparr>result = [], inputs_after = blocks, heap_after = h,
                     filter_calls = [], examined = 0\<rparr>
      in case span of
           None \<Rightarrow> Inr nothing
         | Some p \<Rightarrow>
             if \<not> Remain h p then Inr nothing
             else (case Clone h p of
                     (h1, target) \<Rightarrow>
                       if length blocks = 0
                       then Inr \<lparr>result = [Some (ToSlot h1 target)],
                                 inputs_after = blocks, heap_after = h1,
                                 filter_calls = [], examined = 0\<rparr>
                       else (let blocks' = sort_Slice blocks;
                                 s0 = \<lparr>st_heap = h1,
                                       st_slots = replicate (length blocks' + 1) None,
                                       st_j = 0, st_calls = [], st_examined = 0\<rparr>
                             in case Find_loop options target blocks' s0 of
                                  Inl e \<Rightarrow> Inl e
                                | Inr s1 \<Rightarrow> Find_tail options target blocks' s1)))"

section \<open>Notions the properties are stated with\<close>

text \<open>An interval is half-open: the instants of a period are those of \<open>[Start, End)\<close>.\<close>

definition instants :: "Period \<Rightarrow> time set" where
  "instants p = {Start p..<End p}"

text \<open>
  What \<^verbatim>\<open>sort.Slice\<close> with the comparison \<^verbatim>\<open>Start().Before\<close> guarantees of its
  result \<open>ys\<close> on the slice \<open>xs\<close>: the same elements, no later one starting before an
  earlier one. \<open>start_of\<close> is the accessor \<^verbatim>\<open>Start()\<close> of the element type.
\<close>

definition sorted_by_Start :: "('i \<Rightarrow> time) \<Rightarrow> 'i list \<Rightarrow> 'i list \<Rightarrow> bool" where
  "sorted_by_Start start_of xs ys \<longleftrightarrow> mset ys = mset xs \<and> sorted (map start_of ys)"

text \<open>
  The candidate slots one sweep emits from the working span \<open>t\<close> over the blocks, the
  trailing one included, before any filter: the list-level reading of the loop, used to
  reason about what it writes to the buffer.
\<close>

fun candidates :: "Span \<Rightarrow> Block list \<Rightarrow> Slot list" where
  "candidates t [] = (if Start t < End t then [\<lparr>Start = Start t, End = End t\<rparr>] else [])"
| "candidates t (b # bs) =
     (if Contains b t then []
      else if OverlapAtStart b t then candidates (t\<lparr>Start := End b\<rparr>) bs
      else if IsContainedIn b t
      then \<lparr>Start = Start t, End = Start b\<rparr> # candidates (t\<lparr>Start := End b\<rparr>) bs
      else if OverlapAtEnd b t then [\<lparr>Start = Start t, End = Start b\<rparr>]
      else candidates t bs)"

text \<open>A candidate is kept when no filter is set or the filter returns false on it.\<close>

definition kept :: "'o Options \<Rightarrow> 'o \<Rightarrow> bool" where
  "kept options v = (case FilterFunc options of None \<Rightarrow> True | Some f \<Rightarrow> \<not> f v)"

text \<open>
  The options a call works with: lines 39 to 44 (and 112 to 117) start from a nil filter
  and apply every \<^verbatim>\<open>opt\<close> in order.
\<close>

definition options_of :: "'o OptionFn list \<Rightarrow> 'o Options" where
  "options_of opts = fold (\<lambda>opt options. opt options) opts \<lparr>FilterFunc = None\<rparr>"

text \<open>How many of a list of conditions hold.\<close>

definition count_true :: "bool list \<Rightarrow> nat" where
  "count_true bs = length (filter (\<lambda>b. b) bs)"

section \<open>Properties\<close>

subsection \<open>The working copy in the store\<close>

text \<open>
  \<^verbatim>\<open>Clone\<close> puts the working span at the end of the store; every method the sweep
  calls on it reads and writes that last cell only.
\<close>

lemma Shorten_working_copy:
  "Shorten (h @ [t]) (length h) block = h @ [t\<lparr>Start := End block\<rparr>]"
  by (simp add: Shorten_def)

lemma Drop_working_copy:
  "Drop (h @ [t]) (length h) = h @ [t\<lparr>Start := End t\<rparr>]"
  by (simp add: Drop_def)

lemma Remain_working_copy: "Remain (h @ [t]) (length h) \<longleftrightarrow> Start t < End t"
  by (simp add: Remain_def)

lemma ToSlot_working_copy: "ToSlot (h @ [t]) (length h) = \<lparr>Start = Start t, End = End t\<rparr>"
  by (simp add: ToSlot_def)

lemma createSlotFrom_working_copy:
  "createSlotFrom (h @ [t]) (length h) b = \<lparr>Start = Start t, End = Start b\<rparr>"
  by (simp add: createSlotFrom_def)

lemmas working_copy = Shorten_working_copy Drop_working_copy Remain_working_copy
  ToSlot_working_copy createSlotFrom_working_copy

lemma take_assigned: "j < length xs \<Longrightarrow> take (Suc j) (xs[j := v]) = take j xs @ [v]"
  by (simp add: take_Suc_conv_app_nth)

subsection \<open>The buffer holds the kept candidates\<close>

text \<open>
  With room left in the buffer for one slot per remaining input and one more, the loop
  followed by the trailing emission returns, and what it returns is what the buffer held
  so far followed by the candidates the filter keeps. The caller's part of the store is
  untouched.
\<close>

lemma tail_result:
  assumes "st_heap s = h @ [t]" and "st_j s < length (st_slots s)"
  shows "\<exists>out. FindWithMapper_tail mapout options (length h) xs s = Inr out
           \<and> result out = take (st_j s) (st_slots s)
               @ filter (kept options) (map (\<lambda>g. mapout (Some g)) (candidates t []))
           \<and> inputs_after out = xs \<and> take (length h) (heap_after out) = h"
  using assms
  by (cases "FilterFunc options")
     (auto simp: FindWithMapper_tail_def working_copy return_slots_def filter_excludes_def
        IsSetFilter_def assign_slot_def kept_def take_assigned Let_def)

lemma loop_result:
  assumes "st_heap s = h @ [t]" and "st_j s + length ins < length (st_slots s)"
  shows "\<exists>out. (case FindWithMapper_loop mapin mapout options (length h) ins s of
                   Inl e \<Rightarrow> Inl e
                 | Inr s1 \<Rightarrow> FindWithMapper_tail mapout options (length h) xs s1) = Inr out
           \<and> result out = take (st_j s) (st_slots s)
               @ filter (kept options) (map (\<lambda>g. mapout (Some g)) (candidates t (map mapin ins)))
           \<and> inputs_after out = xs \<and> take (length h) (heap_after out) = h"
  using assms
proof (induction ins arbitrary: s t)
  case Nil
  then show ?case using tail_result[of s h t mapout options xs] by simp
next
  case (Cons a ins)
  let ?b = "mapin a"
  let ?s = "s\<lparr>st_examined := st_examined s + 1\<rparr>"
  let ?v = "mapout (Some \<lparr>Start = Start t, End = Start ?b\<rparr>)"
  have heap: "st_heap ?s = h @ [t]" and j: "st_j ?s < length (st_slots ?s)"
    using Cons.prems by simp_all
  consider (contains) "Contains ?b t"
    | (at_start) "\<not> Contains ?b t" "OverlapAtStart ?b t"
    | (inside) "\<not> Contains ?b t" "\<not> OverlapAtStart ?b t" "IsContainedIn ?b t"
    | (at_end) "\<not> Contains ?b t" "\<not> OverlapAtStart ?b t" "\<not> IsContainedIn ?b t" "OverlapAtEnd ?b t"
    | (apart) "\<not> Contains ?b t" "\<not> OverlapAtStart ?b t" "\<not> IsContainedIn ?b t" "\<not> OverlapAtEnd ?b t"
    by blast
  then show ?case
  proof cases
    case contains
    have "st_heap (?s\<lparr>st_heap := Drop (st_heap ?s) (length h)\<rparr>) = h @ [t\<lparr>Start := End t\<rparr>]"
      using heap by (simp add: working_copy)
    from tail_result[OF this, of mapout options xs] j contains heap show ?thesis
      by (simp add: Let_def)
  next
    case at_start
    have "st_heap (?s\<lparr>st_heap := Shorten (st_heap ?s) (length h) ?b\<rparr>) = h @ [t\<lparr>Start := End ?b\<rparr>]"
      using heap by (simp add: working_copy)
    from Cons.IH[OF this] Cons.prems at_start show ?thesis
      by (simp add: Let_def)
  next
    case inside
    let ?s1 = "?s\<lparr>st_heap := Shorten (st_heap ?s) (length h) ?b\<rparr>"
    have h1: "st_heap ?s1 = h @ [t\<lparr>Start := End ?b\<rparr>]"
      using heap by (simp add: working_copy)
    show ?thesis
    proof (cases "kept options ?v")
      case True
      let ?s3 = "(if IsSetFilter options then ?s1\<lparr>st_calls := st_calls ?s1 @ [?v]\<rparr> else ?s1)
                   \<lparr>st_slots := (st_slots s)[st_j s := ?v], st_j := st_j s + 1\<rparr>"
      have "st_heap ?s3 = h @ [t\<lparr>Start := End ?b\<rparr>]" using h1 by simp
      from Cons.IH[OF this] Cons.prems inside True show ?thesis
        by (auto simp: Let_def working_copy filter_excludes_def IsSetFilter_def
            assign_slot_def kept_def take_assigned split: option.splits)
    next
      case False
      let ?s2 = "?s1\<lparr>st_calls := st_calls ?s1 @ [?v]\<rparr>"
      have "st_heap ?s2 = h @ [t\<lparr>Start := End ?b\<rparr>]" using h1 by simp
      from Cons.IH[OF this] Cons.prems inside False show ?thesis
        by (auto simp: Let_def working_copy filter_excludes_def IsSetFilter_def kept_def
            split: option.splits)
    qed
  next
    case at_end
    let ?s1 = "?s\<lparr>st_heap := Drop (st_heap ?s) (length h)\<rparr>"
    have h1: "st_heap ?s1 = h @ [t\<lparr>Start := End t\<rparr>]"
      using heap by (simp add: working_copy)
    show ?thesis
    proof (cases "kept options ?v")
      case True
      let ?s3 = "(if IsSetFilter options then ?s1\<lparr>st_calls := st_calls ?s1 @ [?v]\<rparr> else ?s1)
                   \<lparr>st_slots := (st_slots s)[st_j s := ?v], st_j := st_j s + 1\<rparr>"
      have "st_heap ?s3 = h @ [t\<lparr>Start := End t\<rparr>]" using h1 by simp
      from tail_result[OF this, of mapout options xs] Cons.prems at_end True show ?thesis
        by (auto simp: Let_def working_copy filter_excludes_def IsSetFilter_def
            assign_slot_def kept_def take_assigned split: option.splits)
    next
      case False
      let ?s2 = "?s1\<lparr>st_calls := st_calls ?s1 @ [?v]\<rparr>"
      have "st_heap ?s2 = h @ [t\<lparr>Start := End t\<rparr>]" using h1 by simp
      from tail_result[OF this, of mapout options xs] Cons.prems at_end False show ?thesis
        by (auto simp: Let_def working_copy filter_excludes_def IsSetFilter_def kept_def
            split: option.splits)
    qed
  next
    case apart
    from Cons.IH[OF heap] Cons.prems apart show ?thesis
      by (simp add: Let_def)
  qed
qed


subsection \<open>Find is FindWithMapper at the identity\<close>

lemma Find_loop_as_mapper:
  "Find_loop options target bs s = FindWithMapper_loop (\<lambda>b. b) (\<lambda>v. v) options target bs s"
  by (induction bs arbitrary: s) (simp_all add: Let_def split: prod.splits sum.splits)

lemma Find_tail_as_mapper:
  "Find_tail options target bs s = FindWithMapper_tail (\<lambda>v. v) options target bs s"
  by (simp add: Find_tail_def FindWithMapper_tail_def)

lemma Find_as_mapper:
  "Find srt h blocks span opts = FindWithMapper srt None h blocks span (\<lambda>b. b) (\<lambda>v. v) opts"
  unfolding Find_def FindWithMapper_def Find_loop_as_mapper Find_tail_as_mapper ..

subsection \<open>What a call returns\<close>

lemma FindWithMapper_result:
  assumes "Remain h p" and "inputs \<noteq> []"
  shows "\<exists>out. FindWithMapper srt zero h inputs (Some p) mapin mapout opts = Inr out
           \<and> result out = filter (kept (options_of opts))
                (map (\<lambda>g. mapout (Some g)) (candidates (h ! p) (map mapin (srt inputs))))
           \<and> inputs_after out = srt inputs \<and> take (length h) (heap_after out) = h"
proof -
  let ?s0 = "\<lparr>st_heap = h @ [h ! p], st_slots = replicate (length (srt inputs) + 1) zero,
              st_j = 0, st_calls = [], st_examined = 0\<rparr>"
  have "st_heap ?s0 = h @ [h ! p]" and "st_j ?s0 + length (srt inputs) < length (st_slots ?s0)"
    by simp_all
  from loop_result[OF this, where mapin = mapin and mapout = mapout
      and options = "options_of opts" and xs = "srt inputs"] assms
  show ?thesis
    unfolding FindWithMapper_def Clone_def Let_def options_of_def by simp
qed

lemma FindWithMapper_no_blocks:
  assumes "Remain h p"
  shows "FindWithMapper srt zero h [] (Some p) mapin mapout opts =
           Inr \<lparr>result = [mapout (Some \<lparr>Start = Start (h ! p), End = End (h ! p)\<rparr>)],
                inputs_after = [], heap_after = h @ [h ! p], filter_calls = [], examined = 0\<rparr>"
  using assms by (simp add: FindWithMapper_def Clone_def Let_def working_copy)

lemma FindWithMapper_no_room:
  assumes "span = None \<or> (\<exists>p. span = Some p \<and> \<not> Remain h p)"
  shows "FindWithMapper srt zero h inputs span mapin mapout opts =
           Inr \<lparr>result = [], inputs_after = inputs, heap_after = h, filter_calls = [], examined = 0\<rparr>"
  using assms by (auto simp: FindWithMapper_def Let_def)

lemma sort_key_sorted_by_Start: "sorted_by_Start f xs (sort_key f xs)"
  by (simp add: sorted_by_Start_def)

lemma length_candidates: "length (candidates t bs) \<le> length bs + 1"
  by (induction bs arbitrary: t) (auto simp: le_SucI)

lemma FindWithMapper_returns:
  "\<exists>out. FindWithMapper srt zero h inputs span mapin mapout opts = Inr out
     \<and> length (result out) \<le> length (srt inputs) + 1
     \<and> (\<forall>p. span = Some p \<longrightarrow> take (length h) (heap_after out) = h)"
proof (cases "span = None \<or> (\<exists>p. span = Some p \<and> \<not> Remain h p)")
  case True
  from FindWithMapper_no_room[OF this, of srt zero inputs mapin mapout opts]
  show ?thesis by simp
next
  case False
  then obtain p where p: "span = Some p" "Remain h p" by auto
  show ?thesis
  proof (cases "inputs = []")
    case True
    with p FindWithMapper_no_blocks[OF p(2), of srt zero mapin mapout opts]
    show ?thesis by simp
  next
    case False
    from FindWithMapper_result[OF p(2) False, of srt zero mapin mapout opts]
    obtain out where out: "FindWithMapper srt zero h inputs (Some p) mapin mapout opts = Inr out"
      "result out = filter (kept (options_of opts))
                (map (\<lambda>g. mapout (Some g)) (candidates (h ! p) (map mapin (srt inputs))))"
      "take (length h) (heap_after out) = h"
      by blast
    have "length (result out) \<le> length (candidates (h ! p) (map mapin (srt inputs)))"
      unfolding out(2) using length_filter_le[of "kept (options_of opts)"] by (metis length_map)
    also have "\<dots> \<le> length (srt inputs) + 1"
      using length_candidates[of "h ! p" "map mapin (srt inputs)"] by simp
    finally show ?thesis using out p by simp
  qed
qed


subsection \<open>The candidates of one sweep\<close>

lemmas relations = Contains_def OverlapAtStart_def IsContainedIn_def OverlapAtEnd_def

lemma candidates_within:
  assumes "\<forall>b\<in>set bs. Start b < End b" and "s \<in> set (candidates t bs)"
  shows "Start t \<le> Start s \<and> Start s < End s \<and> End s \<le> End t"
  using assms
proof (induction bs arbitrary: t)
  case Nil
  then show ?case by (simp split: if_splits)
next
  case (Cons b bs)
  from Cons.prems(1) have wf: "Start b < End b" and rest: "\<forall>b\<in>set bs. Start b < End b"
    by simp_all
  note IH = Cons.IH[OF rest]
  consider (contains) "Contains b t"
    | (at_start) "\<not> Contains b t" "OverlapAtStart b t"
    | (inside) "\<not> Contains b t" "\<not> OverlapAtStart b t" "IsContainedIn b t"
    | (at_end) "\<not> Contains b t" "\<not> OverlapAtStart b t" "\<not> IsContainedIn b t" "OverlapAtEnd b t"
    | (apart) "\<not> Contains b t" "\<not> OverlapAtStart b t" "\<not> IsContainedIn b t" "\<not> OverlapAtEnd b t"
    by blast
  then show ?case
  proof cases
    case contains
    with Cons.prems(2) show ?thesis by simp
  next
    case at_start
    with Cons.prems(2) have "s \<in> set (candidates (t\<lparr>Start := End b\<rparr>) bs)" by simp
    from IH[OF this] at_start show ?thesis by (simp add: relations)
  next
    case inside
    with Cons.prems(2) have "s = \<lparr>Start = Start t, End = Start b\<rparr>
        \<or> s \<in> set (candidates (t\<lparr>Start := End b\<rparr>) bs)" by simp
    then show ?thesis
    proof
      assume "s = \<lparr>Start = Start t, End = Start b\<rparr>"
      with inside wf show ?thesis by (simp add: relations)
    next
      assume "s \<in> set (candidates (t\<lparr>Start := End b\<rparr>) bs)"
      from IH[OF this] inside wf show ?thesis by (simp add: relations)
    qed
  next
    case at_end
    with Cons.prems(2) have "s = \<lparr>Start = Start t, End = Start b\<rparr>" by simp
    with at_end show ?thesis by (simp add: relations)
  next
    case apart
    with Cons.prems(2) have "s \<in> set (candidates t bs)" by simp
    from IH[OF this] show ?thesis .
  qed
qed

lemma candidates_ordered:
  assumes "\<forall>b\<in>set bs. Start b < End b"
  shows "sorted_wrt (\<lambda>a b. End a \<le> Start b) (candidates t bs)"
  using assms
proof (induction bs arbitrary: t)
  case Nil
  then show ?case by simp
next
  case (Cons b bs)
  from Cons.prems have wf: "Start b < End b" and rest: "\<forall>b\<in>set bs. Start b < End b"
    by simp_all
  have "Start b \<le> Start s" if "s \<in> set (candidates (t\<lparr>Start := End b\<rparr>) bs)" for s
    using candidates_within[OF rest that] wf by simp
  with Cons.IH[OF rest] show ?case by auto
qed

lemma in_instants: "x \<in> instants p \<longleftrightarrow> Start p \<le> x \<and> x < End p"
  by (simp add: instants_def)

lemma candidates_cover:
  assumes "sorted (map Start bs)" and "\<forall>b\<in>set bs. Start b < End b"
  shows "(\<exists>s\<in>set (candidates t bs). x \<in> instants s) \<longleftrightarrow>
           x \<in> instants t \<and> (\<forall>b\<in>set bs. x \<notin> instants b)"
  using assms
proof (induction bs arbitrary: t)
  case Nil
  then show ?case by (auto simp: in_instants)
next
  case (Cons b bs)
  from Cons.prems have wf: "Start b < End b" and rest: "\<forall>b\<in>set bs. Start b < End b"
    and later: "\<forall>c\<in>set bs. Start b \<le> Start c" and srt: "sorted (map Start bs)"
    by simp_all
  note IH = Cons.IH[OF srt rest]
  have before: "\<forall>c\<in>set bs. x \<notin> instants c" if "x < Start b"
    using later that by (fastforce simp: in_instants)
  consider (contains) "Contains b t"
    | (at_start) "\<not> Contains b t" "OverlapAtStart b t"
    | (inside) "\<not> Contains b t" "\<not> OverlapAtStart b t" "IsContainedIn b t"
    | (at_end) "\<not> Contains b t" "\<not> OverlapAtStart b t" "\<not> IsContainedIn b t" "OverlapAtEnd b t"
    | (apart) "\<not> Contains b t" "\<not> OverlapAtStart b t" "\<not> IsContainedIn b t" "\<not> OverlapAtEnd b t"
    by blast
  then show ?case
  proof cases
    case contains
    then have "x \<in> instants t \<Longrightarrow> x \<in> instants b"
      by (simp add: relations in_instants)
    with contains show ?thesis by auto
  next
    case at_start
    then have "x \<in> instants (t\<lparr>Start := End b\<rparr>) \<longleftrightarrow> x \<in> instants t \<and> x \<notin> instants b"
      by (simp add: relations in_instants) linarith
    with IH[of "t\<lparr>Start := End b\<rparr>"] at_start show ?thesis by simp
  next
    case inside
    with wf have "x \<in> instants \<lparr>Start = Start t, End = Start b\<rparr> \<or> x \<in> instants (t\<lparr>Start := End b\<rparr>)
            \<longleftrightarrow> x \<in> instants t \<and> x \<notin> instants b"
      by (simp add: relations in_instants) linarith
    moreover have "x \<in> instants \<lparr>Start = Start t, End = Start b\<rparr> \<Longrightarrow> \<forall>c\<in>set bs. x \<notin> instants c"
      using before by (simp add: in_instants)
    ultimately show ?thesis using IH[of "t\<lparr>Start := End b\<rparr>"] inside
      by simp blast
  next
    case at_end
    let ?gap = "\<lparr>Start = Start t, End = Start b\<rparr>"
    from at_end have only: "candidates t (b # bs) = [?gap]" by simp
    from at_end have gap: "x \<in> instants ?gap \<longleftrightarrow> x \<in> instants t \<and> x \<notin> instants b"
      by (simp add: relations in_instants) linarith
    have free: "x \<in> instants ?gap \<Longrightarrow> \<forall>c\<in>set bs. x \<notin> instants c"
      using before by (simp add: in_instants)
    show ?thesis
    proof
      assume "\<exists>s\<in>set (candidates t (b # bs)). x \<in> instants s"
      then have "x \<in> instants ?gap" unfolding only by simp
      with gap free show "x \<in> instants t \<and> (\<forall>c\<in>set (b # bs). x \<notin> instants c)" by simp
    next
      assume "x \<in> instants t \<and> (\<forall>c\<in>set (b # bs). x \<notin> instants c)"
      with gap have "x \<in> instants ?gap" by simp
      then show "\<exists>s\<in>set (candidates t (b # bs)). x \<in> instants s" unfolding only by simp
    qed
  next
    case apart
    with wf have "x \<in> instants t \<Longrightarrow> x \<notin> instants b"
      by (simp add: relations in_instants) linarith
    with IH[of t] apart show ?thesis by simp blast
  qed
qed

subsection \<open>The slots of a call are candidates of its sweep\<close>

lemma options_of_Nil: "options_of [] = \<lparr>FilterFunc = None\<rparr>"
  by (simp add: options_of_def)

lemma options_of_WithFilter: "options_of [WithFilter f] = \<lparr>FilterFunc = f\<rparr>"
  by (simp add: options_of_def WithFilter_def)

lemma kept_without_filter: "kept \<lparr>FilterFunc = None\<rparr> = (\<lambda>s. True)"
  by (simp add: kept_def fun_eq_iff)

lemma kept_with_filter: "kept \<lparr>FilterFunc = Some f\<rparr> = (\<lambda>s. \<not> f s)"
  by (simp add: kept_def fun_eq_iff)

lemma sorted_by_Start_set: "sorted_by_Start f xs ys \<Longrightarrow> set ys = set xs"
  by (auto simp: sorted_by_Start_def dest: mset_eq_setD)

lemma sorted_by_Start_Nil: "sorted_by_Start f [] ys \<Longrightarrow> ys = []"
  by (simp add: sorted_by_Start_def)

text \<open>
  The slots \<^verbatim>\<open>Find\<close> returns are a selection of the candidates of one sweep over the
  sorted blocks, and all of them when no option is supplied.
\<close>

lemma Find_slots:
  assumes "sorted_by_Start Start blocks (srt blocks)"
  shows "\<exists>out keep. Find srt h blocks (Some p) opts = Inr out
           \<and> result out = map Some (filter keep (candidates (h ! p) (srt blocks)))"
proof (cases "Remain h p")
  case False
  then have "Find srt h blocks (Some p) opts =
      Inr \<lparr>result = [], inputs_after = blocks, heap_after = h, filter_calls = [], examined = 0\<rparr>"
    by (simp add: Find_as_mapper FindWithMapper_no_room)
  then have "Find srt h blocks (Some p) opts =
      Inr \<lparr>result = [], inputs_after = blocks, heap_after = h, filter_calls = [], examined = 0\<rparr>
    \<and> result \<lparr>result = [], inputs_after = blocks, heap_after = h, filter_calls = [],
         examined = 0\<rparr> = map Some (filter (\<lambda>g. False) (candidates (h ! p) (srt blocks)))"
    by simp
  then show ?thesis by blast
next
  case True
  show ?thesis
  proof (cases "blocks = []")
    case empty: True
    with assms have "srt blocks = []" by (simp add: sorted_by_Start_Nil)
    with True empty have "Find srt h blocks (Some p) opts =
        Inr \<lparr>result = [Some \<lparr>Start = Start (h ! p), End = End (h ! p)\<rparr>], inputs_after = [],
             heap_after = h @ [h ! p], filter_calls = [], examined = 0\<rparr>
      \<and> result \<lparr>result = [Some \<lparr>Start = Start (h ! p), End = End (h ! p)\<rparr>], inputs_after = [],
             heap_after = h @ [h ! p], filter_calls = [], examined = 0\<rparr>
          = map Some (filter (\<lambda>g. True) (candidates (h ! p) (srt blocks)))"
      by (simp add: Find_as_mapper FindWithMapper_no_blocks Remain_def)
    then show ?thesis by blast
  next
    case False
    from FindWithMapper_result[OF True False, of srt None "\<lambda>b. b" "\<lambda>s. s" opts]
    obtain out where "Find srt h blocks (Some p) opts = Inr out"
      and "result out = filter (kept (options_of opts)) (map Some (candidates (h ! p) (srt blocks)))"
      unfolding Find_as_mapper by auto
    then have "Find srt h blocks (Some p) opts = Inr out
      \<and> result out = map Some (filter (\<lambda>g. kept (options_of opts) (Some g))
                        (candidates (h ! p) (srt blocks)))"
      by (simp add: filter_map comp_def)
    then show ?thesis by blast
  qed
qed

lemma Find_unfiltered:
  assumes "sorted_by_Start Start blocks (srt blocks)" and "Remain h p"
  shows "\<exists>out. Find srt h blocks (Some p) [] = Inr out
           \<and> result out = map Some (candidates (h ! p) (srt blocks))"
proof (cases "blocks = []")
  case True
  with assms(1) have "srt blocks = []" by (simp add: sorted_by_Start_Nil)
  with True assms(2) show ?thesis
    by (simp add: Find_as_mapper FindWithMapper_no_blocks Remain_def)
next
  case False
  from FindWithMapper_result[OF assms(2) False, of srt None "\<lambda>b. b" "\<lambda>s. s" "[]"]
  show ?thesis
    unfolding Find_as_mapper by (auto simp: options_of_Nil kept_without_filter)
qed

text \<open>
  The filter law where the sweep runs: with at least one block, the filtered result is
  the unfiltered one without the slots the filter is true on.
\<close>

lemma Find_filter_law_with_blocks:
  assumes "blocks \<noteq> []"
  shows "\<exists>out out0. Find srt h blocks span [WithFilter (Some f)] = Inr out
           \<and> Find srt h blocks span [] = Inr out0
           \<and> result out = filter (\<lambda>s. \<not> f s) (result out0)"
proof (cases "span = None \<or> (\<exists>p. span = Some p \<and> \<not> Remain h p)")
  case True
  then show ?thesis by (simp add: Find_as_mapper FindWithMapper_no_room)
next
  case False
  then obtain p where p: "span = Some p" "Remain h p" by auto
  from FindWithMapper_result[OF p(2) assms, of srt None "\<lambda>b. b" "\<lambda>s. s" "[WithFilter (Some f)]"]
    FindWithMapper_result[OF p(2) assms, of srt None "\<lambda>b. b" "\<lambda>s. s" "[]"]
  show ?thesis
    unfolding Find_as_mapper p(1)
    by (auto simp: options_of_Nil options_of_WithFilter kept_without_filter kept_with_filter)
qed

lemma separated_slots:
  assumes "sorted_wrt (\<lambda>a b. End a \<le> Start b) xs" and "\<forall>s\<in>set xs. Start s < End s"
  shows "sorted_wrt (\<lambda>a b. Start a < Start b) xs"
    and "\<forall>i<length xs. \<forall>k<length xs. i \<noteq> k \<longrightarrow> instants (xs ! i) \<inter> instants (xs ! k) = {}"
proof -
  from assms show "sorted_wrt (\<lambda>a b. Start a < Start b) xs"
    by (induction xs) fastforce+
  have apart: "instants (xs ! i) \<inter> instants (xs ! k) = {}" if "i < k" "k < length xs" for i k
  proof -
    have "End (xs ! i) \<le> Start (xs ! k)"
      using sorted_wrt_nth_less[OF assms(1) that] .
    then show ?thesis by (auto simp: in_instants)
  qed
  show "\<forall>i<length xs. \<forall>k<length xs. i \<noteq> k \<longrightarrow> instants (xs ! i) \<inter> instants (xs ! k) = {}"
  proof (intro allI impI)
    fix i k
    assume "i < length xs" "k < length xs" "i \<noteq> k"
    then consider "i < k" | "k < i" by linarith
    then show "instants (xs ! i) \<inter> instants (xs ! k) = {}"
    proof cases
      case 1
      then show ?thesis using \<open>k < length xs\<close> by (rule apart)
    next
      case 2
      then have "instants (xs ! k) \<inter> instants (xs ! i) = {}"
        using \<open>i < length xs\<close> by (rule apart)
      then show ?thesis by (simp add: Int_commute)
    qed
  qed
qed

section \<open>The claims\<close>

subsection \<open>Coverage\<close>

text \<open>
  Claim C1. For a span with \<open>Start < End\<close> (at address \<open>p\<close> of the store), blocks that
  each have \<open>Start < End\<close>, and no option supplied, \<^verbatim>\<open>Find\<close> returns slots such
  that the instants of the slots together with the instants of the blocks that lie in
  the span are exactly the instants of the span, and no instant of a slot is an instant
  of a block: every instant of the span is in some slot or in some block, never in both.
\<close>

theorem slots_and_blocks_partition_span:
  assumes "Start (h ! p) < End (h ! p)"
    and "\<forall>b\<in>set blocks. Start b < End b"
    and "sorted_by_Start Start blocks (sort_Slice blocks)"
  shows "\<exists>out xs. Find sort_Slice h blocks (Some p) [] = Inr out \<and> result out = map Some xs
           \<and> (\<Union>s\<in>set xs. instants s) \<union> ((\<Union>b\<in>set blocks. instants b) \<inter> instants (h ! p))
               = instants (h ! p)
           \<and> (\<Union>s\<in>set xs. instants s) \<inter> (\<Union>b\<in>set blocks. instants b) = {}"
proof -
  let ?xs = "candidates (h ! p) (sort_Slice blocks)"
  from assms(1) have "Remain h p" by (simp add: Remain_def)
  from Find_unfiltered[where srt = sort_Slice, OF assms(3) this] obtain out
    where out: "Find sort_Slice h blocks (Some p) [] = Inr out" and res: "result out = map Some ?xs"
    by blast
  from assms have wf: "\<forall>b\<in>set (sort_Slice blocks). Start b < End b"
    and same: "set (sort_Slice blocks) = set blocks"
    and srt: "sorted (map Start (sort_Slice blocks))"
    using sorted_by_Start_set[OF assms(3)] by (simp_all add: sorted_by_Start_def)
  have free: "(\<Union>s\<in>set ?xs. instants s) = instants (h ! p) - (\<Union>b\<in>set blocks. instants b)"
  proof (rule set_eqI)
    fix x
    from candidates_cover[OF srt wf, where x = x and t = "h ! p"]
    show "x \<in> (\<Union>s\<in>set ?xs. instants s)
            \<longleftrightarrow> x \<in> instants (h ! p) - (\<Union>b\<in>set blocks. instants b)"
      unfolding same by simp
  qed
  then have "(\<Union>s\<in>set ?xs. instants s) \<union> ((\<Union>b\<in>set blocks. instants b) \<inter> instants (h ! p))
               = instants (h ! p)"
    and "(\<Union>s\<in>set ?xs. instants s) \<inter> (\<Union>b\<in>set blocks. instants b) = {}"
    by blast+
  with out res show ?thesis
    by (intro exI[of _ out] exI[of _ ?xs]) simp
qed

theorem slots_and_blocks_partition_span_witness:
  "Find (sort_key Start) [\<lparr>Start = 0, End = 8\<rparr>]
     [\<lparr>Start = 2, End = 5\<rparr>, \<lparr>Start = 1, End = 4\<rparr>] (Some 0) [] =
     Inr \<lparr>result = [Some \<lparr>Start = 0, End = 1\<rparr>, Some \<lparr>Start = 5, End = 8\<rparr>],
          inputs_after = [\<lparr>Start = 1, End = 4\<rparr>, \<lparr>Start = 2, End = 5\<rparr>],
          heap_after = [\<lparr>Start = 0, End = 8\<rparr>, \<lparr>Start = 5, End = 8\<rparr>],
          filter_calls = [], examined = 2\<rparr>
   \<and> (instants \<lparr>Start = 0, End = 1\<rparr> \<union> instants \<lparr>Start = 5, End = 8\<rparr>)
       \<union> ((instants \<lparr>Start = 2, End = 5\<rparr> \<union> instants \<lparr>Start = 1, End = 4\<rparr>)
          \<inter> instants \<lparr>Start = 0, End = 8\<rparr>)
       = instants \<lparr>Start = 0, End = 8\<rparr>
   \<and> (instants \<lparr>Start = 0, End = 1\<rparr> \<union> instants \<lparr>Start = 5, End = 8\<rparr>)
       \<inter> (instants \<lparr>Start = 2, End = 5\<rparr> \<union> instants \<lparr>Start = 1, End = 4\<rparr>) = {}"
proof -
  let ?blocks = "[\<lparr>Start = 2, End = 5\<rparr>, \<lparr>Start = 1, End = 4\<rparr>]"
  let ?h = "[\<lparr>Start = 0, End = 8\<rparr>]"
  have run: "Find (sort_key Start) ?h ?blocks (Some 0) [] =
     Inr \<lparr>result = [Some \<lparr>Start = 0, End = 1\<rparr>, Some \<lparr>Start = 5, End = 8\<rparr>],
          inputs_after = [\<lparr>Start = 1, End = 4\<rparr>, \<lparr>Start = 2, End = 5\<rparr>],
          heap_after = [\<lparr>Start = 0, End = 8\<rparr>, \<lparr>Start = 5, End = 8\<rparr>],
          filter_calls = [], examined = 2\<rparr>"
    by code_simp
  have room: "Start (?h ! 0) < End (?h ! 0)" by simp
  have wf: "\<forall>b\<in>set ?blocks. Start b < End b" by simp
  have srt: "sorted_by_Start Start ?blocks (sort_key Start ?blocks)"
    by (rule sort_key_sorted_by_Start)
  from slots_and_blocks_partition_span[where sort_Slice = "sort_key Start", OF room wf srt]
  obtain out xs where "Find (sort_key Start) ?h ?blocks (Some 0) [] = Inr out"
    and "result out = map Some xs"
    and cover: "(\<Union>s\<in>set xs. instants s) \<union> ((\<Union>b\<in>set ?blocks. instants b) \<inter> instants (?h ! 0))
                  = instants (?h ! 0)"
    and apart: "(\<Union>s\<in>set xs. instants s) \<inter> (\<Union>b\<in>set ?blocks. instants b) = {}"
    by (elim exE conjE) (rule that)
  with run have "xs = [\<lparr>Start = 0, End = 1\<rparr>, \<lparr>Start = 5, End = 8\<rparr>]" by auto
  with cover apart run show ?thesis by simp
qed

subsection \<open>Disjointness, order and non-degeneracy\<close>

text \<open>
  Claim C2. For every span (nil or not), blocks that each have \<open>Start < End\<close>, and
  every options list (a filter or none), \<^verbatim>\<open>Find\<close> returns non-nil slots that each have
  \<open>Start < End\<close>, are strictly increasing in \<open>Start\<close>, and are pairwise disjoint as
  half-open intervals.
\<close>

theorem returned_slots_disjoint_ordered:
  assumes "\<forall>b\<in>set blocks. Start b < End b"
    and "sorted_by_Start Start blocks (sort_Slice blocks)"
  shows "\<exists>out xs. Find sort_Slice h blocks span opts = Inr out \<and> result out = map Some xs
           \<and> (\<forall>s\<in>set xs. Start s < End s)
           \<and> sorted_wrt (\<lambda>a b. Start a < Start b) xs
           \<and> (\<forall>i<length xs. \<forall>k<length xs.
                 i \<noteq> k \<longrightarrow> instants (xs ! i) \<inter> instants (xs ! k) = {})"
proof (cases span)
  case None
  then have "Find sort_Slice h blocks span opts =
      Inr \<lparr>result = [], inputs_after = blocks, heap_after = h, filter_calls = [], examined = 0\<rparr>"
    by (simp add: Find_as_mapper FindWithMapper_no_room)
  then show ?thesis by simp
next
  case (Some p)
  from Find_slots[where srt = sort_Slice, OF assms(2)] obtain out keep
    where out: "Find sort_Slice h blocks (Some p) opts = Inr out"
      and res: "result out = map Some (filter keep (candidates (h ! p) (sort_Slice blocks)))"
    by blast
  let ?xs = "filter keep (candidates (h ! p) (sort_Slice blocks))"
  from assms have wf: "\<forall>b\<in>set (sort_Slice blocks). Start b < End b"
    by (simp add: sorted_by_Start_set)
  have proper: "\<forall>s\<in>set ?xs. Start s < End s"
    using candidates_within[OF wf] by auto
  have "sorted_wrt (\<lambda>a b. End a \<le> Start b) ?xs"
    using candidates_ordered[OF wf] by (rule sorted_wrt_filter)
  from separated_slots[OF this proper] proper out res Some show ?thesis
    by (intro exI[of _ out] exI[of _ ?xs]) simp
qed

theorem returned_slots_disjoint_ordered_witness:
  "Find (sort_key Start) [\<lparr>Start = 0, End = 8\<rparr>]
     [\<lparr>Start = 6, End = 7\<rparr>, \<lparr>Start = 1, End = 2\<rparr>] (Some 0)
     [WithFilter (Some (\<lambda>s. s = Some \<lparr>Start = 2, End = 6\<rparr>))] =
     Inr \<lparr>result = [Some \<lparr>Start = 0, End = 1\<rparr>, Some \<lparr>Start = 7, End = 8\<rparr>],
          inputs_after = [\<lparr>Start = 1, End = 2\<rparr>, \<lparr>Start = 6, End = 7\<rparr>],
          heap_after = [\<lparr>Start = 0, End = 8\<rparr>, \<lparr>Start = 7, End = 8\<rparr>],
          filter_calls = [Some \<lparr>Start = 0, End = 1\<rparr>, Some \<lparr>Start = 2, End = 6\<rparr>,
                          Some \<lparr>Start = 7, End = 8\<rparr>],
          examined = 2\<rparr>
   \<and> sorted_wrt (\<lambda>a b. Start a < Start b) [\<lparr>Start = 0, End = 1\<rparr>, \<lparr>Start = 7, End = 8\<rparr>]
   \<and> instants \<lparr>Start = 0, End = 1\<rparr> \<inter> instants \<lparr>Start = 7, End = 8\<rparr> = {}"
proof -
  let ?blocks = "[\<lparr>Start = 6, End = 7\<rparr>, \<lparr>Start = 1, End = 2\<rparr>]"
  let ?h = "[\<lparr>Start = 0, End = 8\<rparr>]"
  let ?opts = "[WithFilter (Some (\<lambda>s. s = Some \<lparr>Start = 2, End = 6\<rparr>))]"
  have run: "Find (sort_key Start) ?h ?blocks (Some 0) ?opts =
     Inr \<lparr>result = [Some \<lparr>Start = 0, End = 1\<rparr>, Some \<lparr>Start = 7, End = 8\<rparr>],
          inputs_after = [\<lparr>Start = 1, End = 2\<rparr>, \<lparr>Start = 6, End = 7\<rparr>],
          heap_after = [\<lparr>Start = 0, End = 8\<rparr>, \<lparr>Start = 7, End = 8\<rparr>],
          filter_calls = [Some \<lparr>Start = 0, End = 1\<rparr>, Some \<lparr>Start = 2, End = 6\<rparr>,
                          Some \<lparr>Start = 7, End = 8\<rparr>],
          examined = 2\<rparr>"
    by code_simp
  have wf: "\<forall>b\<in>set ?blocks. Start b < End b" by simp
  have srt: "sorted_by_Start Start ?blocks (sort_key Start ?blocks)"
    by (rule sort_key_sorted_by_Start)
  from returned_slots_disjoint_ordered[where sort_Slice = "sort_key Start"
      and h = ?h and span = "Some 0" and opts = ?opts, OF wf srt]
  obtain out xs where "Find (sort_key Start) ?h ?blocks (Some 0) ?opts = Inr out"
    and "result out = map Some xs"
    and ordered: "sorted_wrt (\<lambda>a b. Start a < Start b) xs"
    and apart: "\<forall>i<length xs. \<forall>k<length xs.
                  i \<noteq> k \<longrightarrow> instants (xs ! i) \<inter> instants (xs ! k) = {}"
    by blast
  with run have xs: "xs = [\<lparr>Start = 0, End = 1\<rparr>, \<lparr>Start = 7, End = 8\<rparr>]" by auto
  from apart have "0 < length xs \<longrightarrow> 1 < length xs
      \<longrightarrow> (0::nat) \<noteq> 1 \<longrightarrow> instants (xs ! 0) \<inter> instants (xs ! 1) = {}"
    by blast
  with ordered run show ?thesis unfolding xs by simp
qed

subsection \<open>The four relations are not exclusive\<close>

text \<open>
  Claim C7, as amended. For a block with \<open>Start < End\<close> and a period \<open>p\<close> with
  \<open>Start < End\<close>, at most one of \<^verbatim>\<open>Contains(p)\<close>, \<^verbatim>\<open>OverlapAtStart(p)\<close>,
  \<^verbatim>\<open>IsContainedIn(p)\<close> and \<^verbatim>\<open>OverlapAtEnd(p)\<close> holds, provided the period and the
  block have different starts and different ends. The claim as stated, without that
  proviso, fails: see the counterexample below.
\<close>

theorem relations_exclusive_without_shared_endpoint:
  assumes "Start block < End block" and "Start p < End p"
    and "Start p \<noteq> Start block" and "End p \<noteq> End block"
  shows "count_true [Contains block p, OverlapAtStart block p,
                     IsContainedIn block p, OverlapAtEnd block p] \<le> 1"
  using assms by (auto simp: count_true_def relations)

theorem relations_exclusive_without_shared_endpoint_witness:
  "count_true [Contains \<lparr>Start = 0, End = 8\<rparr> \<lparr>Start = 7, End = 9\<rparr>,
               OverlapAtStart \<lparr>Start = 0, End = 8\<rparr> \<lparr>Start = 7, End = 9\<rparr>,
               IsContainedIn \<lparr>Start = 0, End = 8\<rparr> \<lparr>Start = 7, End = 9\<rparr>,
               OverlapAtEnd \<lparr>Start = 0, End = 8\<rparr> \<lparr>Start = 7, End = 9\<rparr>] \<le> 1
   \<and> OverlapAtStart \<lparr>Start = 0, End = 8\<rparr> \<lparr>Start = 7, End = 9\<rparr>"
  using relations_exclusive_without_shared_endpoint
          [of "\<lparr>Start = 0, End = 8\<rparr>" "\<lparr>Start = 7, End = 9\<rparr>"]
  by (simp add: OverlapAtStart_def)

text \<open>
  The counterexample to C7 as stated: the block \<open>[0, 8)\<close> and the period \<open>[0, 9)\<close>
  share their start, and both \<^verbatim>\<open>IsContainedIn\<close> and \<^verbatim>\<open>OverlapAtStart\<close> hold, as
  the tables of \<^verbatim>\<open>TestIsContainedIn\<close> and \<^verbatim>\<open>TestOverlapAtStart\<close> expect (rows
  "Overlap at start, start is the other start"). The pair arises in the sweep: it is
  the first iteration of \<^verbatim>\<open>Find\<close> on the span \<open>[0, 9)\<close> and the block \<open>[0, 8)\<close>,
  where the loop takes the branch of \<^verbatim>\<open>OverlapAtStart\<close>, the earlier of the two in
  its chain of tests.
\<close>

theorem relations_overlap_on_shared_start:
  "\<not> count_true [Contains \<lparr>Start = 0, End = 8\<rparr> \<lparr>Start = 0, End = 9\<rparr>,
                 OverlapAtStart \<lparr>Start = 0, End = 8\<rparr> \<lparr>Start = 0, End = 9\<rparr>,
                 IsContainedIn \<lparr>Start = 0, End = 8\<rparr> \<lparr>Start = 0, End = 9\<rparr>,
                 OverlapAtEnd \<lparr>Start = 0, End = 8\<rparr> \<lparr>Start = 0, End = 9\<rparr>] \<le> 1"
  by (simp add: count_true_def relations)

subsection \<open>No blocks: the filter is not consulted\<close>

text \<open>
  Claim C3 says that with an empty block collection the whole-span slot is subject to
  the filter, so that a filter returning true on it leaves the empty list. The code
  returns at line 125 before any filter is consulted: on the span \<open>[0, 8)\<close>, no blocks
  and a filter that is true everywhere, \<^verbatim>\<open>Find\<close> returns the slot \<open>[0, 8)\<close> and never
  invokes the filter.
\<close>

theorem no_blocks_filter_not_applied:
  "Find sort_Slice [\<lparr>Start = 0, End = 8\<rparr>] [] (Some 0) [WithFilter (Some (\<lambda>s. True))] =
     Inr \<lparr>result = [Some \<lparr>Start = 0, End = 8\<rparr>], inputs_after = [],
          heap_after = [\<lparr>Start = 0, End = 8\<rparr>, \<lparr>Start = 0, End = 8\<rparr>],
          filter_calls = [], examined = 0\<rparr>"
  by (simp add: Find_def Remain_def Clone_def ToSlot_def Let_def)

subsection \<open>A nil span or a span with no room\<close>

text \<open>
  Claim C6. When the span is nil or has \<open>Start \<ge> End\<close>, \<^verbatim>\<open>Find\<close> and
  \<^verbatim>\<open>FindWithMapper\<close> return the empty list, for every block collection and every
  options list, and nothing has been examined: the loop started no iteration, the
  caller's slice is as it was (not sorted), the filter was never invoked and the store
  is unchanged.
\<close>

theorem no_room_returns_at_once:
  assumes "span = None \<or> (\<exists>p. span = Some p \<and> Start (h ! p) \<ge> End (h ! p))"
  shows "Find sort_Slice h blocks span opts =
           Inr \<lparr>result = [], inputs_after = blocks, heap_after = h,
                filter_calls = [], examined = 0\<rparr>
         \<and> FindWithMapper sort_Slice' zero h inputs span mapin mapout opts' =
           Inr \<lparr>result = [], inputs_after = inputs, heap_after = h,
                filter_calls = [], examined = 0\<rparr>"
proof -
  from assms have "span = None \<or> (\<exists>p. span = Some p \<and> \<not> Remain h p)"
    by (auto simp: Remain_def)
  then show ?thesis
    by (simp add: Find_as_mapper FindWithMapper_no_room)
qed

theorem no_room_returns_at_once_witness:
  "Find (sort_key Start) [\<lparr>Start = 0, End = 0\<rparr>] [\<lparr>Start = 2, End = 3\<rparr>, \<lparr>Start = 0, End = 1\<rparr>]
       (Some 0) [WithFilter (Some (\<lambda>s. False))] =
     Inr \<lparr>result = [], inputs_after = [\<lparr>Start = 2, End = 3\<rparr>, \<lparr>Start = 0, End = 1\<rparr>],
          heap_after = [\<lparr>Start = 0, End = 0\<rparr>], filter_calls = [], examined = 0\<rparr>
   \<and> FindWithMapper (sort_key Start) None [\<lparr>Start = 0, End = 0\<rparr>]
       [\<lparr>Start = 2, End = 3\<rparr>, \<lparr>Start = 0, End = 1\<rparr>] None (\<lambda>b. b) (\<lambda>s. s)
       [WithFilter (Some (\<lambda>s. False))] =
     Inr \<lparr>result = [], inputs_after = [\<lparr>Start = 2, End = 3\<rparr>, \<lparr>Start = 0, End = 1\<rparr>],
          heap_after = [\<lparr>Start = 0, End = 0\<rparr>], filter_calls = [], examined = 0\<rparr>"
proof -
  let ?h = "[\<lparr>Start = 0, End = 0\<rparr>]"
  let ?bs = "[\<lparr>Start = 2, End = 3\<rparr>, \<lparr>Start = 0, End = 1\<rparr>]"
  have degenerate: "Some 0 = None \<or> (\<exists>p. Some 0 = Some p \<and> Start (?h ! p) \<ge> End (?h ! p))"
    by simp
  have nil: "None = None \<or> (\<exists>p. None = Some p \<and> Start (?h ! p) \<ge> End (?h ! p))"
    by simp
  show ?thesis
    by (simp add: no_room_returns_at_once[OF degenerate] no_room_returns_at_once[OF nil])
qed

subsection \<open>The two entry points agree\<close>

text \<open>
  Claim C5. \<^verbatim>\<open>FindWithMapper\<close> with the identity as \<^verbatim>\<open>mapin\<close> and as \<^verbatim>\<open>mapout\<close>
  (so \<^verbatim>\<open>Out\<close> is \<^verbatim>\<open>*Slot\<close>, whose zero value is nil) and the same options returns
  what \<^verbatim>\<open>Find\<close> returns on the same blocks and span: the same slots in the same
  order, and the same effects.
\<close>

theorem FindWithMapper_identity_is_Find:
  "FindWithMapper sort_Slice None h blocks span (\<lambda>b. b) (\<lambda>s. s) opts =
     Find sort_Slice h blocks span opts"
  by (simp add: Find_as_mapper)

subsection \<open>The buffer is never overrun\<close>

text \<open>
  Claim C9. For every input with \<open>n\<close> blocks (the in-place sort keeps the length of
  the slice), \<^verbatim>\<open>Find\<close> returns: no write \<^verbatim>\<open>slots[j]\<close>, in the loop or at the
  trailing emission, and no slicing \<^verbatim>\<open>slots[:j]\<close> is out of the range of the buffer of
  length \<open>n + 1\<close>, so the call never ends in the panic \<open>IndexOutOfRange\<close>; and the
  result holds at most \<open>n + 1\<close> slots. The same holds of \<^verbatim>\<open>FindWithMapper\<close>.
\<close>

theorem result_buffer_in_bounds:
  assumes "length (sort_Slice blocks) = length blocks"
    and "length (sort_Slice' inputs) = length inputs"
  shows "(\<exists>out. Find sort_Slice h blocks span opts = Inr out
            \<and> length (result out) \<le> length blocks + 1)
       \<and> (\<exists>out. FindWithMapper sort_Slice' zero h' inputs span' mapin mapout opts' = Inr out
            \<and> length (result out) \<le> length inputs + 1)"
  using FindWithMapper_returns[of sort_Slice None h blocks span "\<lambda>b. b" "\<lambda>s. s" opts]
    FindWithMapper_returns[of sort_Slice' zero h' inputs span' mapin mapout opts'] assms
  by (auto simp: Find_as_mapper)

theorem result_buffer_in_bounds_witness:
  "Find (sort_key Start) [\<lparr>Start = 0, End = 8\<rparr>]
     [\<lparr>Start = 6, End = 7\<rparr>, \<lparr>Start = 1, End = 2\<rparr>] (Some 0) [] =
     Inr \<lparr>result = [Some \<lparr>Start = 0, End = 1\<rparr>, Some \<lparr>Start = 2, End = 6\<rparr>,
                    Some \<lparr>Start = 7, End = 8\<rparr>],
          inputs_after = [\<lparr>Start = 1, End = 2\<rparr>, \<lparr>Start = 6, End = 7\<rparr>],
          heap_after = [\<lparr>Start = 0, End = 8\<rparr>, \<lparr>Start = 7, End = 8\<rparr>],
          filter_calls = [], examined = 2\<rparr>
   \<and> length [Some \<lparr>Start = 0, End = 1\<rparr>, Some \<lparr>Start = 2, End = 6\<rparr>,
              Some \<lparr>Start = 7, End = 8\<rparr>]
       \<le> length [\<lparr>Start = 6, End = 7\<rparr>, \<lparr>Start = 1, End = 2\<rparr>] + 1
   \<and> (\<exists>out. FindWithMapper (sort_key Start) None [\<lparr>Start = 0, End = 8\<rparr>]
            [\<lparr>Start = 6, End = 7\<rparr>, \<lparr>Start = 1, End = 2\<rparr>] (Some 0) (\<lambda>b. b) (\<lambda>s. s) []
            = Inr out
          \<and> length (result out) \<le> length [\<lparr>Start = 6, End = 7\<rparr>, \<lparr>Start = 1, End = 2\<rparr>] + 1)"
proof -
  let ?blocks = "[\<lparr>Start = 6, End = 7\<rparr>, \<lparr>Start = 1, End = 2\<rparr>]"
  let ?h = "[\<lparr>Start = 0, End = 8\<rparr>]"
  have run: "Find (sort_key Start) ?h ?blocks (Some 0) [] =
     Inr \<lparr>result = [Some \<lparr>Start = 0, End = 1\<rparr>, Some \<lparr>Start = 2, End = 6\<rparr>,
                    Some \<lparr>Start = 7, End = 8\<rparr>],
          inputs_after = [\<lparr>Start = 1, End = 2\<rparr>, \<lparr>Start = 6, End = 7\<rparr>],
          heap_after = [\<lparr>Start = 0, End = 8\<rparr>, \<lparr>Start = 7, End = 8\<rparr>],
          filter_calls = [], examined = 2\<rparr>"
    by code_simp
  have kept_length: "length (sort_key Start ?blocks) = length ?blocks" by simp
  from result_buffer_in_bounds[where sort_Slice = "sort_key Start"
      and sort_Slice' = "sort_key Start" and h = ?h and span = "Some 0" and opts = "[]"
      and zero = None and h' = ?h and span' = "Some 0" and mapin = "\<lambda>b. b"
      and mapout = "\<lambda>s. s" and opts' = "[]", OF kept_length kept_length]
  show ?thesis unfolding run by simp
qed

subsection \<open>The caller's span is not mutated\<close>

text \<open>
  Claim C8. A call of \<^verbatim>\<open>Find\<close> or \<^verbatim>\<open>FindWithMapper\<close> with a non-nil span (an
  address \<open>p\<close> of the store) returns, and the span at \<open>p\<close> is afterwards what it was
  before, in both fields: only the working copy that \<^verbatim>\<open>Clone\<close> added is written.
\<close>

theorem caller_span_unchanged:
  assumes "p < length h"
  shows "(\<exists>out. Find sort_Slice h blocks (Some p) opts = Inr out \<and> heap_after out ! p = h ! p)
       \<and> (\<exists>out. FindWithMapper sort_Slice' zero h inputs (Some p) mapin mapout opts' = Inr out
             \<and> heap_after out ! p = h ! p)"
proof -
  from FindWithMapper_returns[of sort_Slice None h blocks "Some p" "\<lambda>b. b" "\<lambda>s. s" opts]
  obtain out where out: "Find sort_Slice h blocks (Some p) opts = Inr out"
    "take (length h) (heap_after out) = h"
    unfolding Find_as_mapper by auto
  from FindWithMapper_returns[of sort_Slice' zero h inputs "Some p" mapin mapout opts']
  obtain out' where out': "FindWithMapper sort_Slice' zero h inputs (Some p) mapin mapout opts' = Inr out'"
    "take (length h) (heap_after out') = h"
    by auto
  from assms out(2) have "heap_after out ! p = h ! p" by (metis nth_take)
  moreover from assms out'(2) have "heap_after out' ! p = h ! p" by (metis nth_take)
  ultimately show ?thesis using out(1) out'(1) by simp
qed

theorem caller_span_unchanged_witness:
  "Find (sort_key Start) [\<lparr>Start = 0, End = 8\<rparr>] [\<lparr>Start = 1, End = 5\<rparr>] (Some 0) [] =
     Inr \<lparr>result = [Some \<lparr>Start = 0, End = 1\<rparr>, Some \<lparr>Start = 5, End = 8\<rparr>],
          inputs_after = [\<lparr>Start = 1, End = 5\<rparr>],
          heap_after = [\<lparr>Start = 0, End = 8\<rparr>, \<lparr>Start = 5, End = 8\<rparr>],
          filter_calls = [], examined = 1\<rparr>
   \<and> [\<lparr>Start = 0, End = 8\<rparr>, \<lparr>Start = 5, End = 8\<rparr>] ! 0 = [\<lparr>Start = 0, End = 8\<rparr>] ! 0
   \<and> (\<exists>out. FindWithMapper (sort_key Start) None [\<lparr>Start = 0, End = 8\<rparr>]
              [\<lparr>Start = 1, End = 5\<rparr>] (Some 0) (\<lambda>b. b) (\<lambda>s. s) [] = Inr out
          \<and> heap_after out ! 0 = [\<lparr>Start = 0, End = 8\<rparr>] ! 0)"
proof -
  let ?blocks = "[\<lparr>Start = 1, End = 5\<rparr>]"
  let ?h = "[\<lparr>Start = 0, End = 8\<rparr>]"
  have run: "Find (sort_key Start) ?h ?blocks (Some 0) [] =
     Inr \<lparr>result = [Some \<lparr>Start = 0, End = 1\<rparr>, Some \<lparr>Start = 5, End = 8\<rparr>],
          inputs_after = [\<lparr>Start = 1, End = 5\<rparr>],
          heap_after = [\<lparr>Start = 0, End = 8\<rparr>, \<lparr>Start = 5, End = 8\<rparr>],
          filter_calls = [], examined = 1\<rparr>"
    by code_simp
  have valid: "0 < length ?h" by simp
  from caller_span_unchanged[where sort_Slice = "sort_key Start" and blocks = ?blocks
      and opts = "[]" and sort_Slice' = "sort_key Start" and zero = None and inputs = ?blocks
      and mapin = "\<lambda>b. b" and mapout = "\<lambda>s. s" and opts' = "[]", OF valid]
  show ?thesis unfolding run by simp
qed

subsection \<open>The slots lie inside the span\<close>

text \<open>
  Claim C10. For every non-nil span, blocks that each have \<open>Start < End\<close>, and every
  options list, every slot \<^verbatim>\<open>Find\<close> returns starts no earlier than the span and
  ends no later.
\<close>

theorem returned_slots_inside_span:
  assumes "\<forall>b\<in>set blocks. Start b < End b"
    and "sorted_by_Start Start blocks (sort_Slice blocks)"
  shows "\<exists>out xs. Find sort_Slice h blocks (Some p) opts = Inr out \<and> result out = map Some xs
           \<and> (\<forall>s\<in>set xs. Start (h ! p) \<le> Start s \<and> End s \<le> End (h ! p))"
proof -
  from Find_slots[where srt = sort_Slice, OF assms(2)] obtain out keep
    where out: "Find sort_Slice h blocks (Some p) opts = Inr out"
      and res: "result out = map Some (filter keep (candidates (h ! p) (sort_Slice blocks)))"
    by blast
  from assms have wf: "\<forall>b\<in>set (sort_Slice blocks). Start b < End b"
    by (simp add: sorted_by_Start_set)
  have "\<forall>s\<in>set (filter keep (candidates (h ! p) (sort_Slice blocks))).
          Start (h ! p) \<le> Start s \<and> End s \<le> End (h ! p)"
    using candidates_within[OF wf] by auto
  with out res show ?thesis
    by (intro exI[of _ out] exI[of _ "filter keep (candidates (h ! p) (sort_Slice blocks))"]) simp
qed

theorem returned_slots_inside_span_witness:
  "Find (sort_key Start) [\<lparr>Start = 0, End = 8\<rparr>]
     [\<lparr>Start = 3, End = 9\<rparr>, \<lparr>Start = -1, End = 1\<rparr>] (Some 0)
     [WithFilter (Some (\<lambda>s. False))] =
     Inr \<lparr>result = [Some \<lparr>Start = 1, End = 3\<rparr>],
          inputs_after = [\<lparr>Start = -1, End = 1\<rparr>, \<lparr>Start = 3, End = 9\<rparr>],
          heap_after = [\<lparr>Start = 0, End = 8\<rparr>, \<lparr>Start = 8, End = 8\<rparr>],
          filter_calls = [Some \<lparr>Start = 1, End = 3\<rparr>], examined = 2\<rparr>
   \<and> Start \<lparr>Start = 0, End = 8\<rparr> \<le> Start \<lparr>Start = 1, End = 3\<rparr>
   \<and> End \<lparr>Start = 1, End = 3\<rparr> \<le> End \<lparr>Start = 0, End = 8\<rparr>"
proof -
  let ?blocks = "[\<lparr>Start = 3, End = 9\<rparr>, \<lparr>Start = -1, End = 1\<rparr>]"
  let ?h = "[\<lparr>Start = 0, End = 8\<rparr>]"
  let ?opts = "[WithFilter (Some (\<lambda>s. False))]"
  have run: "Find (sort_key Start) ?h ?blocks (Some 0) ?opts =
     Inr \<lparr>result = [Some \<lparr>Start = 1, End = 3\<rparr>],
          inputs_after = [\<lparr>Start = -1, End = 1\<rparr>, \<lparr>Start = 3, End = 9\<rparr>],
          heap_after = [\<lparr>Start = 0, End = 8\<rparr>, \<lparr>Start = 8, End = 8\<rparr>],
          filter_calls = [Some \<lparr>Start = 1, End = 3\<rparr>], examined = 2\<rparr>"
    by code_simp
  have wf: "\<forall>b\<in>set ?blocks. Start b < End b" by simp
  have srt: "sorted_by_Start Start ?blocks (sort_key Start ?blocks)"
    by (rule sort_key_sorted_by_Start)
  from returned_slots_inside_span[where sort_Slice = "sort_key Start"
      and h = ?h and p = 0 and opts = ?opts, OF wf srt]
  obtain out xs where "Find (sort_key Start) ?h ?blocks (Some 0) ?opts = Inr out"
    and "result out = map Some xs"
    and inside: "\<forall>s\<in>set xs. Start (?h ! 0) \<le> Start s \<and> End s \<le> End (?h ! 0)"
    by blast
  with run have "xs = [\<lparr>Start = 1, End = 3\<rparr>]" by auto
  with inside run show ?thesis by simp
qed

subsection \<open>The filter law\<close>

text \<open>
  Claim C4 says that \<^verbatim>\<open>Find\<close> with \<^verbatim>\<open>WithFilter(f)\<close> returns what \<^verbatim>\<open>Find\<close> with
  no filter returns, without the slots \<open>f\<close> is true on. With at least one block that
  is so (lemma \<open>Find_filter_law_with_blocks\<close>). With no block it is not, by the early
  return of line 125 (the defect of C3): on the span \<open>[0, 8)\<close> and the filter that is
  true everywhere, the filtered call returns the slot \<open>[0, 8)\<close>, and removing from the
  unfiltered result the slots the filter is true on leaves nothing.
\<close>

theorem filter_law_fails_without_blocks:
  "\<exists>out out0.
     Find sort_Slice [\<lparr>Start = 0, End = 8\<rparr>] [] (Some 0) [WithFilter (Some (\<lambda>s. True))] = Inr out
     \<and> Find sort_Slice [\<lparr>Start = 0, End = 8\<rparr>] [] (Some 0) [] = Inr out0
     \<and> result out = [Some \<lparr>Start = 0, End = 8\<rparr>]
     \<and> filter (\<lambda>s. \<not> (\<lambda>s. True) s) (result out0) = []"
  by (simp add: Find_def Remain_def Clone_def ToSlot_def Let_def)

end
